theory Spec2Isabelle
  imports Complex_Main "HOL-Library.Log_Nat"
begin

section \<open>Python floats\<close>

text \<open>
  The viewer keeps its zoom level, and the touch widget its pinch scale, in Python
  floats, which are IEEE 754 binary64 values. A float is modelled by the rational
  number it denotes, or one of the two infinities, or NaN. Every arithmetic operation
  computes the exact rational result and rounds it to the nearest binary64 value, ties
  to even: 53 significant bits, the spacing of the subnormal numbers \<open>2 powi - 1074\<close> at
  the small end, overflow to an infinity from \<open>2 ^ 1024\<close> on. The sign of zero is not
  modelled: no operation below can tell \<open>-0.0\<close> from \<open>0.0\<close> (Python's float division
  raises on both).
\<close>

datatype pyfloat = Finite rat | PosInf | NegInf | NaN

datatype exn = ZeroDivisionError | OverflowError

definition expo :: "rat \<Rightarrow> int" where
  \<comment> \<open>the binary exponent \<open>e\<close> of a nonzero \<open>x\<close>: \<open>2 powi e \<le> \<bar>x\<bar> < 2 powi (e + 1)\<close>\<close>
  "expo x = (let a = \<bar>x\<bar> in
     if 1 \<le> a then bitlen \<lfloor>a\<rfloor> - 1 else - bitlen (\<lceil>1 / a\<rceil> - 1))"

definition round_half_even :: "rat \<Rightarrow> int" where
  "round_half_even y = (let f = \<lfloor>y\<rfloor>; d = y - of_int f in
     if d < 1 / 2 then f else if 1 / 2 < d then f + 1
     else if even f then f else f + 1)"

definition ulp :: "rat \<Rightarrow> rat" where
  \<comment> \<open>the spacing of the binary64 values around \<open>x\<close>\<close>
  "ulp x = 2 powi (max (expo x - 52) (- 1074))"

definition round53 :: "rat \<Rightarrow> rat" where
  "round53 x = (if x = 0 then 0 else of_int (round_half_even (x / ulp x)) * ulp x)"

definition fl :: "rat \<Rightarrow> pyfloat" where
  "fl x = (let r = round53 x in
     if 2 ^ 1024 \<le> r then PosInf else if r \<le> - (2 ^ 1024) then NegInf else Finite r)"

fun fsign :: "pyfloat \<Rightarrow> rat" where
  "fsign (Finite a) = sgn a"
| "fsign PosInf = 1"
| "fsign NegInf = - 1"
| "fsign NaN = 0"

definition inf_of_sign :: "rat \<Rightarrow> pyfloat" where
  "inf_of_sign s = (if 0 < s then PosInf else if s < 0 then NegInf else NaN)"

fun fneg :: "pyfloat \<Rightarrow> pyfloat" where
  "fneg (Finite a) = Finite (- a)"
| "fneg PosInf = NegInf"
| "fneg NegInf = PosInf"
| "fneg NaN = NaN"

fun fabs :: "pyfloat \<Rightarrow> pyfloat" where
  "fabs (Finite a) = Finite \<bar>a\<bar>"
| "fabs PosInf = PosInf"
| "fabs NegInf = PosInf"
| "fabs NaN = NaN"

fun fadd :: "pyfloat \<Rightarrow> pyfloat \<Rightarrow> pyfloat" where
  "fadd (Finite a) (Finite b) = fl (a + b)"
| "fadd NaN y = NaN"
| "fadd x NaN = NaN"
| "fadd PosInf NegInf = NaN"
| "fadd NegInf PosInf = NaN"
| "fadd PosInf y = PosInf"
| "fadd NegInf y = NegInf"
| "fadd (Finite a) y = y"

definition fsub :: "pyfloat \<Rightarrow> pyfloat \<Rightarrow> pyfloat" where
  "fsub x y = fadd x (fneg y)"

fun fmul :: "pyfloat \<Rightarrow> pyfloat \<Rightarrow> pyfloat" where
  "fmul (Finite a) (Finite b) = fl (a * b)"
| "fmul NaN y = NaN"
| "fmul x NaN = NaN"
| "fmul x y = inf_of_sign (fsign x * fsign y)"

fun fdiv :: "pyfloat \<Rightarrow> pyfloat \<Rightarrow> exn + pyfloat" where
  "fdiv x (Finite b) =
     (if b = 0 then Inl ZeroDivisionError
      else case x of Finite a \<Rightarrow> Inr (fl (a / b))
        | NaN \<Rightarrow> Inr NaN
        | _ \<Rightarrow> Inr (inf_of_sign (fsign x * sgn b)))"
| "fdiv x NaN = Inr NaN"
| "fdiv (Finite a) y = Inr (Finite 0)"
| "fdiv x y = Inr NaN"

fun flt :: "pyfloat \<Rightarrow> pyfloat \<Rightarrow> bool" where
  "flt (Finite a) (Finite b) = (a < b)"
| "flt NaN y = False"
| "flt x NaN = False"
| "flt x NegInf = False"
| "flt PosInf y = False"
| "flt x y = True"

definition fgt :: "pyfloat \<Rightarrow> pyfloat \<Rightarrow> bool" where
  "fgt x y = flt y x"

fun fle :: "pyfloat \<Rightarrow> pyfloat \<Rightarrow> bool" where
  "fle NaN y = False"
| "fle x NaN = False"
| "fle x y = (\<not> flt y x)"

definition py_min :: "pyfloat \<Rightarrow> pyfloat \<Rightarrow> pyfloat" where
  \<comment> \<open>the builtin \<open>min(a, b)\<close>: the first argument unless the second is smaller\<close>
  "py_min a b = (if flt b a then b else a)"

definition py_max :: "pyfloat \<Rightarrow> pyfloat \<Rightarrow> pyfloat" where
  \<comment> \<open>the builtin \<open>max(a, b)\<close>: the first argument unless the second is greater\<close>
  "py_max a b = (if fgt b a then b else a)"

text \<open>The float literals of the source, as the binary64 values they denote.\<close>

definition lit_0_1 :: pyfloat where
  "lit_0_1 = Finite (3602879701896397 / 36028797018963968)"

definition lit_1_1 :: pyfloat where
  "lit_1_1 = Finite (2476979795053773 / 2251799813685248)"

definition lit_0_05 :: pyfloat where
  "lit_0_05 = Finite (3602879701896397 / 72057594037927936)"

section \<open>PDFViewerCore (core.py)\<close>

text \<open>
  The document returned by \<open>fitz.open\<close> is an object of the rendering library; the
  core reads its length (the number of pages) and tests its truth value. A library
  object with \<open>__len__\<close> and no \<open>__bool__\<close> is true exactly when its length is not zero.
\<close>

datatype document = Document (page_count: nat)

definition truthy :: "document option \<Rightarrow> bool" where
  "truthy d = (case d of None \<Rightarrow> False | Some doc \<Rightarrow> page_count doc \<noteq> 0)"

record pdf_viewer_core =
  pdf_document :: "document option"
  current_pdf_path :: "string option"
  current_page_num :: int
  total_pages :: int
  zoom_level :: pyfloat
  scroll_position :: int
  page_height :: int
  scroll_threshold :: int

definition init_core :: pdf_viewer_core where
  "init_core = \<lparr>pdf_document = None, current_pdf_path = None, current_page_num = 0,
     total_pages = 0, zoom_level = Finite 1, scroll_position = 0, page_height = 0,
     scroll_threshold = 100\<rparr>"

definition reset_pdf_state :: "pdf_viewer_core \<Rightarrow> pdf_viewer_core" where
  "reset_pdf_state s = s\<lparr>pdf_document := None, current_pdf_path := None,
     current_page_num := 0, total_pages := 0, zoom_level := Finite 1,
     scroll_position := 0, page_height := 0\<rparr>"

definition basename :: "string \<Rightarrow> string" where
  \<comment> \<open>\<open>os.path.basename\<close>: what follows the last slash\<close>
  "basename p = rev (takeWhile (\<lambda>c. c \<noteq> CHR ''/'') (rev p))"

fun str_nat :: "nat \<Rightarrow> string" where
  "str_nat n = (if n < 10 then [''0123456789'' ! n]
     else str_nat (n div 10) @ [''0123456789'' ! (n mod 10)])"

definition str_int :: "int \<Rightarrow> string" where
  "str_int i = (if i < 0 then CHR ''-'' # str_nat (nat (- i)) else str_nat (nat i))"

definition load_pdf ::
  "pdf_viewer_core \<Rightarrow> string \<Rightarrow> string + document \<Rightarrow> pdf_viewer_core \<times> bool \<times> string" where
  \<comment> \<open>the third argument is the outcome of \<open>fitz.open(file_path)\<close>: the document, or
     the text of the exception it raised\<close>
  "load_pdf s file_path opened =
     (case opened of
        Inr doc \<Rightarrow>
          (s\<lparr>pdf_document := Some doc, current_pdf_path := Some file_path,
             total_pages := int (page_count doc), current_page_num := 1,
             scroll_position := 0\<rparr>,
           True, ''Successfully loaded: '' @ basename file_path)
      | Inl e \<Rightarrow> (reset_pdf_state s, False, ''Could not load PDF: '' @ e))"

definition go_to_page ::
  "pdf_viewer_core \<Rightarrow> int \<Rightarrow> pdf_viewer_core \<times> bool \<times> string option" where
  "go_to_page s page_num =
     (if truthy (pdf_document s) \<and> 0 < total_pages s then
        if 1 \<le> page_num \<and> page_num \<le> total_pages s then
          (s\<lparr>current_page_num := page_num, scroll_position := 0\<rparr>, True, None)
        else
          (s, False,
           Some (''Page number must be between 1 and '' @ str_int (total_pages s) @ ''.''))
      else (s, False, Some ''No PDF document loaded.''))"

definition next_page :: "pdf_viewer_core \<Rightarrow> pdf_viewer_core \<times> bool \<times> string option" where
  "next_page s =
     (if truthy (pdf_document s) \<and> current_page_num s < total_pages s then
        go_to_page s (current_page_num s + 1)
      else if truthy (pdf_document s) then
        (s, False, Some ''You are already on the last page.'')
      else (s, False, Some ''No PDF document loaded.''))"

definition prev_page :: "pdf_viewer_core \<Rightarrow> pdf_viewer_core \<times> bool \<times> string option" where
  "prev_page s =
     (if truthy (pdf_document s) \<and> 1 < current_page_num s then
        go_to_page s (current_page_num s - 1)
      else if truthy (pdf_document s) then
        (s, False, Some ''You are already on the first page.'')
      else (s, False, Some ''No PDF document loaded.''))"

definition zoom_in :: "pdf_viewer_core \<Rightarrow> pyfloat \<Rightarrow> pdf_viewer_core \<times> bool" where
  "zoom_in s factor =
     (s\<lparr>zoom_level := py_min (fadd (zoom_level s) factor) (Finite 3)\<rparr>, True)"

definition zoom_out :: "pdf_viewer_core \<Rightarrow> pyfloat \<Rightarrow> pdf_viewer_core \<times> bool" where
  "zoom_out s factor =
     (s\<lparr>zoom_level := py_max (fsub (zoom_level s) factor) (Finite (1 / 2))\<rparr>, True)"

definition zoom_in_by_factor :: "pdf_viewer_core \<Rightarrow> pyfloat \<Rightarrow> pdf_viewer_core \<times> bool" where
  "zoom_in_by_factor s factor =
     (s\<lparr>zoom_level := py_min (fmul (zoom_level s) factor) (Finite 3)\<rparr>, True)"

definition zoom_out_by_factor ::
  "pdf_viewer_core \<Rightarrow> pyfloat \<Rightarrow> exn + pdf_viewer_core \<times> bool" where
  \<comment> \<open>the division raises on a zero factor, before anything is assigned\<close>
  "zoom_out_by_factor s factor =
     (case fdiv (zoom_level s) factor of
        Inl e \<Rightarrow> Inl e
      | Inr q \<Rightarrow> Inr (s\<lparr>zoom_level := py_max q (Finite (1 / 2))\<rparr>, True))"

record document_info =
  current_page :: int
  info_total_pages :: int
  info_zoom_level :: pyfloat
  file_path :: "string option"
  has_document :: bool

definition get_document_info :: "pdf_viewer_core \<Rightarrow> document_info" where
  "get_document_info s = \<lparr>current_page = current_page_num s,
     info_total_pages = total_pages s, info_zoom_level = zoom_level s,
     file_path = current_pdf_path s, has_document = (pdf_document s \<noteq> None)\<rparr>"

text \<open>
  \<open>get_page_pixmap\<close> hands the page to the rendering library and to Qt. That chain
  (\<open>load_page\<close>, \<open>get_pixmap\<close>, \<open>QImage\<close>, \<open>QPixmap.fromImage\<close>) is a parameter: given
  the document, the 0-based page index and the zoom level, it yields a pixmap, of
  which the core reads the height, or raises.
\<close>

record pixmap =
  pix_height :: int

definition get_page_pixmap ::
  "(document \<Rightarrow> int \<Rightarrow> pyfloat \<Rightarrow> string + pixmap) \<Rightarrow> pdf_viewer_core \<Rightarrow> int option
     \<Rightarrow> string + pdf_viewer_core \<times> pixmap option" where
  "get_page_pixmap render s page_num_arg =
     (if \<not> truthy (pdf_document s) then Inr (s, None)
      else
        let page_num = (case page_num_arg of None \<Rightarrow> current_page_num s | Some n \<Rightarrow> n)
        in if 0 \<le> page_num - 1 \<and> page_num - 1 < total_pages s then
             case render (the (pdf_document s)) (page_num - 1) (zoom_level s) of
               Inl e \<Rightarrow> Inl e
             | Inr pm \<Rightarrow> Inr (s\<lparr>page_height := pix_height pm\<rparr>, Some pm)
           else Inr (s, None))"

section \<open>Sequences of operations on the core\<close>

text \<open>
  The operations a host can invoke on a session, and the state they leave. A call
  that raises assigns nothing, so the state stays as it was.
\<close>

datatype operation =
    Op_load string "string + document"
  | Op_go_to_page int
  | Op_next_page
  | Op_prev_page
  | Op_zoom_in pyfloat
  | Op_zoom_out pyfloat
  | Op_zoom_in_by_factor pyfloat
  | Op_zoom_out_by_factor pyfloat
  | Op_reset

fun step :: "pdf_viewer_core \<Rightarrow> operation \<Rightarrow> pdf_viewer_core" where
  "step s (Op_load path opened) = fst (load_pdf s path opened)"
| "step s (Op_go_to_page n) = fst (go_to_page s n)"
| "step s Op_next_page = fst (next_page s)"
| "step s Op_prev_page = fst (prev_page s)"
| "step s (Op_zoom_in f) = fst (zoom_in s f)"
| "step s (Op_zoom_out f) = fst (zoom_out s f)"
| "step s (Op_zoom_in_by_factor f) = fst (zoom_in_by_factor s f)"
| "step s (Op_zoom_out_by_factor f) =
     (case zoom_out_by_factor s f of Inl e \<Rightarrow> s | Inr (s', ok) \<Rightarrow> s')"
| "step s Op_reset = reset_pdf_state s"

definition run :: "operation list \<Rightarrow> pdf_viewer_core \<Rightarrow> pdf_viewer_core" where
  "run ops s = foldl step s ops"

definition zoom_in_bounds :: "pyfloat \<Rightarrow> bool" where
  "zoom_in_bounds z = (fle (Finite (1 / 2)) z \<and> fle z (Finite 3))"

definition session_inv :: "pdf_viewer_core \<Rightarrow> bool" where
  \<comment> \<open>the session invariant of the specification\<close>
  "session_inv s =
     ((has_document (get_document_info s) \<longrightarrow>
         1 \<le> current_page_num s \<and> current_page_num s \<le> total_pages s)
      \<and> zoom_in_bounds (zoom_level s))"

fun within_contract :: "operation \<Rightarrow> bool" where
  \<comment> \<open>the specification's one stated contract: a factor is positive\<close>
  "within_contract (Op_zoom_in_by_factor f) = fgt f (Finite 0)"
| "within_contract (Op_zoom_out_by_factor f) = fgt f (Finite 0)"
| "within_contract opn = True"

fun enlarging :: "operation \<Rightarrow> bool" where
  \<comment> \<open>steps are not negative, factors are at least 1, a loaded document has a page\<close>
  "enlarging (Op_load path (Inr doc)) = (1 \<le> page_count doc)"
| "enlarging (Op_zoom_in f) = fle (Finite 0) f"
| "enlarging (Op_zoom_out f) = fle (Finite 0) f"
| "enlarging (Op_zoom_in_by_factor f) = fle (Finite 1) f"
| "enlarging (Op_zoom_out_by_factor f) = fle (Finite 1) f"
| "enlarging opn = True"

definition clamp :: "pyfloat \<Rightarrow> pyfloat \<Rightarrow> pyfloat \<Rightarrow> pyfloat" where
  \<comment> \<open>the specification's \<open>clamp(x, lo, hi)\<close>: \<open>x\<close> constrained into \<open>[lo, hi]\<close>\<close>
  "clamp x lo hi = (if flt x lo then lo else if flt hi x then hi else x)"

section \<open>PDFContentWidget (widget.py)\<close>

text \<open>
  The widget keeps the last pinch scale and, while a pinch is tracked, the attribute
  \<open>initial_distance\<close>; the attribute being absent is \<open>None\<close>. A touch event is its
  type and the positions of its touch points. The calls the handler makes on the
  parent viewer are returned in order. \<open>Accepted\<close> is the handler returning \<open>True\<close>,
  \<open>Default\<close> is its handing the event to the base class.

  Python's \<open>**\<close> on floats is the C library's \<open>pow\<close>, whose rounding the language
  does not fix and which raises \<open>OverflowError\<close> out of range: it is a parameter.
\<close>

datatype event_type = TouchBegin | TouchUpdate | TouchEnd

type_synonym touch_point = "pyfloat \<times> pyfloat"

record touch_event =
  ev_type :: event_type
  touch_points :: "touch_point list"

record pdf_content_widget =
  pinch_scale_factor :: pyfloat
  last_pinch_scale :: pyfloat
  initial_distance :: "pyfloat option"

datatype viewer_call = Call_zoom_in_by_factor pyfloat | Call_zoom_out_by_factor pyfloat

datatype handled = Accepted | Default

definition init_widget :: pdf_content_widget where
  "init_widget = \<lparr>pinch_scale_factor = Finite 1, last_pinch_scale = Finite 1,
     initial_distance = None\<rparr>"

definition current_distance ::
  "(pyfloat \<Rightarrow> pyfloat \<Rightarrow> exn + pyfloat) \<Rightarrow> touch_point \<Rightarrow> touch_point \<Rightarrow> exn + pyfloat" where
  "current_distance pw p1 p2 =
     (case pw (fsub (fst p1) (fst p2)) (Finite 2) of
        Inl e \<Rightarrow> Inl e
      | Inr dx2 \<Rightarrow>
          (case pw (fsub (snd p1) (snd p2)) (Finite 2) of
             Inl e \<Rightarrow> Inl e
           | Inr dy2 \<Rightarrow> pw (fadd dx2 dy2) (Finite (1 / 2))))"

definition end_of_touch :: "touch_event \<Rightarrow> pdf_content_widget \<Rightarrow> pdf_content_widget" where
  \<comment> \<open>the last statement of the two-point branch\<close>
  "end_of_touch ev w =
     (if ev_type ev = TouchEnd
      then w\<lparr>initial_distance := None, last_pinch_scale := Finite 1\<rparr> else w)"

definition handle_touch_event ::
  "(pyfloat \<Rightarrow> pyfloat \<Rightarrow> exn + pyfloat) \<Rightarrow> pdf_content_widget \<Rightarrow> touch_event
     \<Rightarrow> exn + pdf_content_widget \<times> viewer_call list \<times> handled" where
  "handle_touch_event pw w ev =
     (if length (touch_points ev) = 2 then
        case current_distance pw (touch_points ev ! 0) (touch_points ev ! 1) of
          Inl e \<Rightarrow> Inl e
        | Inr cur \<Rightarrow>
            (case initial_distance w of
               Some d0 \<Rightarrow>
                 (case fdiv cur d0 of
                    Inl e \<Rightarrow> Inl e
                  | Inr scale_factor \<Rightarrow>
                      let zoom_delta = fsub scale_factor (last_pinch_scale w) in
                      if fgt (fabs zoom_delta) lit_0_05 then
                        if fgt zoom_delta (Finite 0) then
                          Inr (end_of_touch ev (w\<lparr>last_pinch_scale := scale_factor\<rparr>),
                               [Call_zoom_in_by_factor lit_1_1], Accepted)
                        else
                          Inr (end_of_touch ev (w\<lparr>last_pinch_scale := scale_factor\<rparr>),
                               [Call_zoom_out_by_factor lit_1_1], Accepted)
                      else Inr (end_of_touch ev w, [], Accepted))
             | None \<Rightarrow>
                 Inr (end_of_touch ev
                        (w\<lparr>initial_distance := Some cur, last_pinch_scale := Finite 1\<rparr>),
                      [], Accepted))
      else Inr (w, [], Default))"

definition sample_pow :: "pyfloat \<Rightarrow> pyfloat \<Rightarrow> exn + pyfloat" where
  \<comment> \<open>\<open>pow\<close> at the arguments of the examples below: squares, and three square roots\<close>
  "sample_pow b e =
     (if e = Finite 2 then Inr (fmul b b)
      else if b = Finite 10000 then Inr (Finite 100)
      else if b = Finite 12544 then Inr (Finite 112)
      else if b = Finite 12769 then Inr (Finite 113)
      else Inr NaN)"

definition two_points :: "rat \<Rightarrow> event_type \<Rightarrow> touch_event" where
  \<comment> \<open>two touch points on a horizontal line, \<open>d\<close> apart\<close>
  "two_points d t = \<lparr>ev_type = t, touch_points = [(Finite 0, Finite 0), (Finite d, Finite 0)]\<rparr>"

definition tracking_100 :: pdf_content_widget where
  "tracking_100 = \<lparr>pinch_scale_factor = Finite 1, last_pinch_scale = Finite 1,
     initial_distance = Some (Finite 100)\<rparr>"

section \<open>Repeated navigation\<close>

text \<open>
  Calling \<open>next_page\<close> \<open>k\<close> times in a row, keeping the success flag of every call.
\<close>

fun next_page_times :: "nat \<Rightarrow> pdf_viewer_core \<Rightarrow> pdf_viewer_core \<times> bool list" where
  "next_page_times 0 s = (s, [])"
| "next_page_times (Suc k) s =
     (case next_page s of (s', ok, msg) \<Rightarrow>
        (case next_page_times k s' of (s'', oks) \<Rightarrow> (s'', ok # oks)))"

text \<open>Example states for the concrete instances below.\<close>

definition three_pages :: pdf_viewer_core where
  "three_pages = fst (load_pdf init_core ''/tmp/a.pdf'' (Inr (Document 3)))"

definition sample_render :: "document \<Rightarrow> int \<Rightarrow> pyfloat \<Rightarrow> string + pixmap" where
  "sample_render doc i z = Inr \<lparr>pix_height = 800\<rparr>"

section \<open>Evaluating the rounding on numerals\<close>

lemma floor_rat_numeral_div: "\<lfloor>(numeral a :: rat) / numeral b\<rfloor> = numeral a div numeral b"
  using floor_divide_of_int_eq [of "numeral a" "numeral b", where ?'a = rat] by simp

lemma floor_rat_neg_numeral_div:
  "\<lfloor>- ((numeral a :: rat) / numeral b)\<rfloor> = - numeral a div numeral b"
  using floor_divide_of_int_eq [of "- numeral a" "numeral b", where ?'a = rat] by simp

lemma ceiling_rat_numeral_div:
  "\<lceil>(numeral a :: rat) / numeral b\<rceil> = - (- numeral a div numeral b)"
  using floor_rat_neg_numeral_div [of a b] by (simp add: ceiling_def)

lemmas fl_eval = fl_def round53_def ulp_def expo_def compute_bitlen power_int_def
  power_one_over round_half_even_def Let_def floor_rat_numeral_div
  floor_rat_neg_numeral_div ceiling_rat_numeral_div

lemma fdiv_nonzero: "d \<noteq> Finite 0 \<Longrightarrow> \<exists>q. fdiv x d = Inr q"
  by (cases d; cases x) auto


section \<open>Properties of the rounding\<close>

lemma bitlen_pos: "0 < n \<Longrightarrow> 1 \<le> bitlen n"
  using bitlen_eq_zero_iff [of n] bitlen_nonneg [of n] by linarith

lemma expo_ge_1:
  fixes x :: rat
  assumes "1 \<le> \<bar>x\<bar>"
  shows "2 powi expo x \<le> \<bar>x\<bar>" and "\<bar>x\<bar> < 2 powi (expo x + 1)"
proof -
  define n where "n = \<lfloor>\<bar>x\<bar>\<rfloor>"
  define b where "b = bitlen n"
  have n: "1 \<le> n" using assms by (simp add: n_def le_floor_iff)
  then have b: "1 \<le> b" unfolding b_def by (intro bitlen_pos) simp
  have e: "expo x = b - 1"
    using assms by (simp add: expo_def b_def n_def)
  from n bitlen_bounds [of n]
  have lo: "2 ^ nat (b - 1) \<le> n" and hi: "n < 2 ^ nat b"
    by (simp_all add: b_def)
  have "rat_of_int (2 ^ nat (b - 1)) \<le> of_int n"
    using lo by (simp only: of_int_le_iff)
  also have "\<dots> \<le> \<bar>x\<bar>" by (simp add: n_def)
  finally show "2 powi expo x \<le> \<bar>x\<bar>"
    using b by (simp add: e power_int_def)
  have "\<bar>x\<bar> < of_int (n + 1)"
    using floor_correct [of "\<bar>x\<bar>"] by (simp add: n_def)
  also have "rat_of_int (n + 1) \<le> of_int (2 ^ nat b)"
    using hi by (simp only: of_int_le_iff)
  finally show "\<bar>x\<bar> < 2 powi (expo x + 1)"
    using b by (simp add: e power_int_def)
qed

lemma expo_lt_1:
  fixes x :: rat
  assumes "x \<noteq> 0" and "\<bar>x\<bar> < 1"
  shows "2 powi expo x \<le> \<bar>x\<bar>" and "\<bar>x\<bar> < 2 powi (expo x + 1)"
proof -
  define y where "y = 1 / \<bar>x\<bar>"
  define m where "m = \<lceil>y\<rceil> - 1"
  define k where "k = bitlen m"
  have a: "0 < \<bar>x\<bar>" using assms by simp
  have y: "1 < y" using assms a by (simp add: y_def)
  have ax: "\<bar>x\<bar> = 1 / y" by (simp add: y_def)
  have m: "1 \<le> m" using y by (simp add: m_def less_ceiling_iff)
  then have k: "1 \<le> k" unfolding k_def by (intro bitlen_pos) simp
  have e: "expo x = - k"
    using assms by (simp add: expo_def k_def m_def y_def)
  from m bitlen_bounds [of m]
  have lo: "2 ^ nat (k - 1) \<le> m" and hi: "m < 2 ^ nat k"
    by (simp_all add: k_def)
  have "y \<le> of_int (m + 1)" by (simp add: m_def)
  also have "rat_of_int (m + 1) \<le> of_int (2 ^ nat k)"
    using hi by (simp only: of_int_le_iff)
  finally have yk: "y \<le> 2 ^ nat k" by simp
  have "1 / (2::rat) ^ nat k \<le> 1 / y"
    using yk y by (intro divide_left_mono) auto
  then show "2 powi expo x \<le> \<bar>x\<bar>"
    using k unfolding e ax
    by (simp add: power_int_def power_one_over inverse_eq_divide)
  have "rat_of_int (2 ^ nat (k - 1)) \<le> of_int m"
    using lo by (simp only: of_int_le_iff)
  also have "rat_of_int m < y"
    using ceiling_correct [of y] by (simp add: m_def)
  finally have ky: "2 ^ nat (k - 1) < y" by simp
  have "1 / y < 1 / (2::rat) ^ nat (k - 1)"
    using ky y by (intro divide_strict_left_mono) auto
  moreover have "- k + 1 = - (k - 1)" by simp
  ultimately show "\<bar>x\<bar> < 2 powi (expo x + 1)"
    using k unfolding e ax
    by (auto simp: power_int_def power_one_over inverse_eq_divide)
qed

lemma expo_bounds:
  fixes x :: rat
  assumes "x \<noteq> 0"
  shows "2 powi expo x \<le> \<bar>x\<bar>" and "\<bar>x\<bar> < 2 powi (expo x + 1)"
  using assms expo_ge_1 [of x] expo_lt_1 [of x] by (cases "1 \<le> \<bar>x\<bar>"; simp)+

lemma round_half_even_err: "\<bar>rat_of_int (round_half_even y) - y\<bar> \<le> 1 / 2"
  using floor_correct [of y]
  by (auto simp: round_half_even_def Let_def abs_le_iff)

lemma round_half_even_ge: "rat_of_int n \<le> y \<Longrightarrow> n \<le> round_half_even y"
proof -
  assume "rat_of_int n \<le> y"
  then have "n \<le> \<lfloor>y\<rfloor>" by (simp add: le_floor_iff)
  then show ?thesis by (auto simp: round_half_even_def Let_def)
qed

lemma round_half_even_le: "y \<le> rat_of_int n \<Longrightarrow> round_half_even y \<le> n"
proof -
  assume a: "y \<le> rat_of_int n"
  show ?thesis
  proof (cases "y = of_int \<lfloor>y\<rfloor>")
    case True
    then have "\<lfloor>y\<rfloor> \<le> n" using a by (metis of_int_le_iff)
    with True show ?thesis by (simp add: round_half_even_def Let_def)
  next
    case False
    then have "of_int \<lfloor>y\<rfloor> < y" using floor_correct [of y] by linarith
    with a have "rat_of_int \<lfloor>y\<rfloor> < of_int n" by linarith
    then have "\<lfloor>y\<rfloor> < n" by (simp only: of_int_less_iff)
    then show ?thesis by (auto simp: round_half_even_def Let_def)
  qed
qed

lemma ulp_pos: "0 < ulp x"
  by (simp add: ulp_def zero_less_power_int)

lemma round53_err: "\<bar>round53 x - x\<bar> \<le> ulp x / 2"
proof (cases "x = 0")
  case True
  then show ?thesis using ulp_pos [of x] by (simp add: round53_def)
next
  case False
  have "round53 x - x = (rat_of_int (round_half_even (x / ulp x)) - x / ulp x) * ulp x"
    using False ulp_pos [of x] by (simp add: round53_def field_simps)
  then have "\<bar>round53 x - x\<bar> = \<bar>rat_of_int (round_half_even (x / ulp x)) - x / ulp x\<bar> * ulp x"
    using ulp_pos [of x] by (simp add: abs_mult)
  also have "\<dots> \<le> 1 / 2 * ulp x"
    using round_half_even_err [of "x / ulp x"] ulp_pos [of x]
    by (intro mult_right_mono) auto
  finally show ?thesis by simp
qed

lemma round53_ge_grid:
  assumes "rat_of_int n * ulp x \<le> x" and "x \<noteq> 0"
  shows "rat_of_int n * ulp x \<le> round53 x"
proof -
  have "rat_of_int n \<le> x / ulp x"
    using assms(1) ulp_pos [of x] by (simp add: field_simps)
  then have "n \<le> round_half_even (x / ulp x)" by (rule round_half_even_ge)
  then have "rat_of_int n \<le> of_int (round_half_even (x / ulp x))" by (simp only: of_int_le_iff)
  then show ?thesis
    using assms(2) ulp_pos [of x] by (simp add: round53_def)
qed

lemma round53_le_grid:
  assumes "x \<le> rat_of_int n * ulp x" and "x \<noteq> 0"
  shows "round53 x \<le> rat_of_int n * ulp x"
proof -
  have "x / ulp x \<le> rat_of_int n"
    using assms(1) ulp_pos [of x] by (simp add: field_simps)
  then have "round_half_even (x / ulp x) \<le> n" by (rule round_half_even_le)
  then have "rat_of_int (round_half_even (x / ulp x)) \<le> of_int n" by (simp only: of_int_le_iff)
  then show ?thesis
    using assms(2) ulp_pos [of x] by (simp add: round53_def)
qed

lemma powi_two_less_imp:
  assumes "(2::rat) powi a \<le> x" and "x < 2 powi b"
  shows "a < b"
proof (rule ccontr)
  assume "\<not> a < b"
  then have "(2::rat) powi b \<le> 2 powi a" by (intro power_int_increasing) auto
  with assms show False by linarith
qed

lemma round53_ge_powi:
  assumes "0 < x" and "- 1022 \<le> expo x"
  shows "2 powi expo x \<le> round53 x"
proof -
  have "max (expo x - 52) (- 1074) = expo x - 52"
    using assms(2) by linarith
  then have u: "ulp x = 2 powi (expo x - 52)"
    by (simp only: ulp_def)
  have "rat_of_int (2 ^ 52) * ulp x = 2 powi 52 * 2 powi (expo x - 52)"
    unfolding u by simp
  also have "\<dots> = 2 powi (52 + (expo x - 52))"
    by (subst power_int_add) auto
  finally have g: "rat_of_int (2 ^ 52) * ulp x = 2 powi expo x" by simp
  have "2 powi expo x \<le> x"
    using expo_bounds(1) [of x] assms(1) by simp
  with g have "rat_of_int (2 ^ 52) * ulp x \<le> x" by simp
  then have "rat_of_int (2 ^ 52) * ulp x \<le> round53 x"
    using assms(1) by (intro round53_ge_grid) auto
  with g show ?thesis by simp
qed

lemma round53_ge_half:
  assumes "1 / 2 \<le> x"
  shows "1 / 2 \<le> round53 x"
proof -
  have x: "0 < x" using assms by simp
  have "x < 2 powi (expo x + 1)"
    using expo_bounds(2) [of x] x by simp
  moreover have "(2::rat) powi (- 1) \<le> x" using assms by (simp add: power_int_minus)
  ultimately have "- 1 < expo x + 1" by (rule powi_two_less_imp [rotated])
  then have e: "- 1 \<le> expo x" by simp
  then have "(2::rat) powi (- 1) \<le> 2 powi expo x"
    by (intro power_int_increasing) auto
  moreover have "2 powi expo x \<le> round53 x"
    using x e by (intro round53_ge_powi) auto
  ultimately show ?thesis by (simp add: power_int_minus)
qed

lemma round53_le_3:
  assumes "x \<le> 3"
  shows "round53 x \<le> 3"
proof -
  consider "x = 0" | "x < 0" | "0 < x" by linarith
  then show ?thesis
  proof cases
    case 1
    then show ?thesis by (simp add: round53_def)
  next
    case 2
    then have "round53 x \<le> rat_of_int 0 * ulp x"
      by (intro round53_le_grid) auto
    then show ?thesis by simp
  next
    case 3
    have lo: "2 powi expo x \<le> x" and hi: "x < 2 powi (expo x + 1)"
      using expo_bounds [of x] 3 by simp_all
    have "x < (2::rat) powi 2" using assms by simp
    with lo have "expo x < 2" by (rule powi_two_less_imp)
    then consider "expo x = 1" | "expo x \<le> 0" by linarith
    then show ?thesis
    proof cases
      case 1
      have u: "ulp x = 1 / 2 ^ 51"
        by (simp add: ulp_def 1 power_int_minus_divide)
      have "round53 x \<le> rat_of_int (3 * 2 ^ 51) * ulp x"
        using assms 3 by (intro round53_le_grid) (simp_all add: u)
      then show ?thesis by (simp add: u)
    next
      case 2
      then have "(2::rat) powi (expo x + 1) \<le> 2 powi 1"
        by (intro power_int_increasing) auto
      with hi have x2: "x < 2" by simp
      have "ulp x \<le> 2 powi (- 52)"
        unfolding ulp_def using 2 by (intro power_int_increasing) auto
      also have "\<dots> \<le> 1" by (simp add: power_int_minus_divide)
      finally have "ulp x \<le> 1" .
      with round53_err [of x] x2 show ?thesis by linarith
    qed
  qed
qed

lemma fl_ge_half:
  assumes "1 / 2 \<le> x"
  shows "fl x = PosInf \<or> (\<exists>r. fl x = Finite r \<and> 1 / 2 \<le> r)"
proof -
  have "1 / 2 \<le> round53 x" using assms by (rule round53_ge_half)
  moreover have "- (2 ^ 1024) < (1 / 2 :: rat)" by simp
  ultimately show ?thesis
    unfolding fl_def Let_def by (auto simp del: power_numeral)
qed

lemma fl_le_3:
  assumes "x \<le> 3"
  shows "fl x = NegInf \<or> (\<exists>r. fl x = Finite r \<and> r \<le> 3)"
proof -
  have "round53 x \<le> 3" using assms by (rule round53_le_3)
  moreover have "(3::rat) < 2 ^ 1024" by simp
  ultimately show ?thesis
    unfolding fl_def Let_def by (auto simp del: power_numeral)
qed

lemma zoom_in_bounds_iff:
  "zoom_in_bounds z \<longleftrightarrow> (\<exists>r. z = Finite r \<and> 1 / 2 \<le> r \<and> r \<le> 3)"
  by (cases z) (auto simp: zoom_in_bounds_def)

lemma fle_zero_cases: "fle (Finite c) f \<Longrightarrow> (\<exists>q. f = Finite q \<and> c \<le> q) \<or> f = PosInf"
  by (cases f) auto

lemma zoom_in_keeps:
  assumes "zoom_in_bounds z" and "fle (Finite 0) f"
  shows "zoom_in_bounds (py_min (fadd z f) (Finite 3))"
proof -
  obtain r where r: "z = Finite r" "1 / 2 \<le> r" "r \<le> 3"
    using assms(1) by (auto simp: zoom_in_bounds_iff)
  from fle_zero_cases [OF assms(2)] show ?thesis
  proof
    assume "\<exists>q. f = Finite q \<and> 0 \<le> q"
    then obtain q where q: "f = Finite q" "0 \<le> q" by blast
    have "1 / 2 \<le> r + q" using r q by simp
    from fl_ge_half [OF this] show ?thesis
      by (auto simp: r q py_min_def zoom_in_bounds_def)
  next
    assume "f = PosInf"
    then show ?thesis by (simp add: r py_min_def zoom_in_bounds_def)
  qed
qed

lemma zoom_out_keeps:
  assumes "zoom_in_bounds z" and "fle (Finite 0) f"
  shows "zoom_in_bounds (py_max (fsub z f) (Finite (1 / 2)))"
proof -
  obtain r where r: "z = Finite r" "1 / 2 \<le> r" "r \<le> 3"
    using assms(1) by (auto simp: zoom_in_bounds_iff)
  from fle_zero_cases [OF assms(2)] show ?thesis
  proof
    assume "\<exists>q. f = Finite q \<and> 0 \<le> q"
    then obtain q where q: "f = Finite q" "0 \<le> q" by blast
    have "r + - q \<le> 3" using r q by simp
    from fl_le_3 [OF this] show ?thesis
      by (auto simp: r q py_max_def fgt_def fsub_def zoom_in_bounds_def)
  next
    assume "f = PosInf"
    then show ?thesis by (simp add: r py_max_def fgt_def fsub_def zoom_in_bounds_def)
  qed
qed

lemma zoom_in_by_factor_keeps:
  assumes "zoom_in_bounds z" and "fle (Finite 1) f"
  shows "zoom_in_bounds (py_min (fmul z f) (Finite 3))"
proof -
  obtain r where r: "z = Finite r" "1 / 2 \<le> r" "r \<le> 3"
    using assms(1) by (auto simp: zoom_in_bounds_iff)
  from fle_zero_cases [OF assms(2)] show ?thesis
  proof
    assume "\<exists>q. f = Finite q \<and> 1 \<le> q"
    then obtain q where q: "f = Finite q" "1 \<le> q" by blast
    have "1 / 2 * 1 \<le> r * q" using r q by (intro mult_mono) auto
    then have "1 / 2 \<le> r * q" by simp
    from fl_ge_half [OF this] show ?thesis
      by (auto simp: r q py_min_def zoom_in_bounds_def)
  next
    assume "f = PosInf"
    then show ?thesis using r by (simp add: py_min_def zoom_in_bounds_def inf_of_sign_def)
  qed
qed

lemma fdiv_factor:
  assumes "z = Finite r" and "1 / 2 \<le> r" and "r \<le> 3" and "fle (Finite 1) f"
  shows "\<exists>q. fdiv z f = Inr q \<and> (q = NegInf \<or> (\<exists>t. q = Finite t \<and> t \<le> 3))"
proof -
  from fle_zero_cases [OF assms(4)] show ?thesis
  proof
    assume "\<exists>q. f = Finite q \<and> 1 \<le> q"
    then obtain q where q: "f = Finite q" "1 \<le> q" by blast
    have "r / q \<le> r / 1" using q assms by (intro divide_left_mono) auto
    then have "r / q \<le> 3" using assms by simp
    from fl_le_3 [OF this] show ?thesis using q by (auto simp: assms(1))
  next
    assume "f = PosInf"
    then show ?thesis by (simp add: assms(1))
  qed
qed

lemma zoom_out_by_factor_keeps:
  assumes "zoom_in_bounds z" and "fle (Finite 1) f"
  shows "\<exists>q. fdiv z f = Inr q \<and> zoom_in_bounds (py_max q (Finite (1 / 2)))"
proof -
  obtain r where r: "z = Finite r" "1 / 2 \<le> r" "r \<le> 3"
    using assms(1) by (auto simp: zoom_in_bounds_iff)
  from fdiv_factor [OF r assms(2)] show ?thesis
    by (auto simp: py_max_def fgt_def zoom_in_bounds_def)
qed

lemma expo_ge:
  assumes "(2::rat) powi a \<le> x" and "0 < x"
  shows "a \<le> expo x"
proof -
  have "x < 2 powi (expo x + 1)" using expo_bounds(2) [of x] assms(2) by simp
  with assms(1) have "a < expo x + 1" by (rule powi_two_less_imp)
  then show ?thesis by simp
qed

lemma round53_rel_err:
  assumes "0 < x" and "- 1022 \<le> expo x"
  shows "\<bar>round53 x - x\<bar> \<le> x / 2 ^ 53"
proof -
  have "max (expo x - 52) (- 1074) = expo x - 52"
    using assms(2) by linarith
  then have "ulp x = 2 powi (expo x - 52)" by (simp only: ulp_def)
  also have "\<dots> = 2 powi expo x / 2 powi 52" by (subst power_int_diff) auto
  finally have u: "ulp x = 2 powi expo x / 2 ^ 52" by simp
  have "2 powi expo x \<le> x" using expo_bounds(1) [of x] assms(1) by simp
  then have "ulp x / 2 \<le> x / 2 ^ 53" by (simp add: u field_simps)
  with round53_err [of x] show ?thesis by linarith
qed

lemma fl_finite:
  assumes "0 < x" and "- 1022 \<le> expo x" and "x \<le> 4"
  shows "fl x = Finite (round53 x)" and "0 < round53 x"
proof -
  have e: "\<bar>round53 x - x\<bar> \<le> x / 2 ^ 53" using assms(1,2) by (rule round53_rel_err)
  have "x / 2 ^ 53 < x" using assms(1) by (simp add: field_simps)
  with e show pos: "0 < round53 x" by linarith
  have "x / 2 ^ 53 \<le> x" using assms(1) by (simp add: field_simps)
  with e assms(3) have "round53 x \<le> 8" by linarith
  moreover have "(8::rat) < 2 ^ 1024" by simp
  moreover have "- (2 ^ 1024) < (0::rat)" by simp
  ultimately show "fl x = Finite (round53 x)"
    using pos unfolding fl_def Let_def by (auto simp del: power_numeral)
qed

lemma round_trip_error:
  fixes z c :: rat
  assumes z: "1 / 2 < z" "z < 3" and c: "1 \<le> c" "c \<le> 4 / 3"
  defines "p \<equiv> round53 (z * c)"
  defines "q \<equiv> round53 (p / c)"
  shows "fl (z * c) = Finite p" and "fl (p / c) = Finite q"
    and "\<bar>q - z\<bar> \<le> z / 2 ^ 52 + z / 2 ^ 106"
proof -
  have zc: "1 / 2 < z * c" "z * c \<le> 4"
  proof -
    have "1 / 2 * 1 < z * c" using z c by (intro mult_less_le_imp_less) auto
    then show "1 / 2 < z * c" by simp
    have "z * c \<le> 3 * (4 / 3)" using z c by (intro mult_mono) auto
    then show "z * c \<le> 4" by simp
  qed
  have e1: "- 1022 \<le> expo (z * c)"
  proof -
    have "(1 / 2 :: rat) = 2 powi (- 1)" by (simp add: power_int_minus)
    with zc(1) have "(2::rat) powi (- 1) \<le> z * c" by linarith
    moreover have "0 < z * c" using zc(1) by linarith
    ultimately have "- 1 \<le> expo (z * c)" by (rule expo_ge)
    then show ?thesis by simp
  qed
  have x1: "0 < z * c" using zc by simp
  show fp: "fl (z * c) = Finite p"
    unfolding p_def using x1 e1 zc(2) by (rule fl_finite)
  have err1: "\<bar>p - z * c\<bar> \<le> z * c / 2 ^ 53"
    unfolding p_def using x1 e1 by (rule round53_rel_err)
  have cpos: "0 < c" using c by simp
  have "p / c - z = (p - z * c) / c" using cpos by (simp add: field_simps)
  then have "\<bar>p / c - z\<bar> = \<bar>p - z * c\<bar> / c" using cpos by (simp add: abs_divide)
  also have "\<dots> \<le> (z * c / 2 ^ 53) / c"
    using err1 cpos by (intro divide_right_mono) auto
  also have "\<dots> = z / 2 ^ 53" using cpos by simp
  finally have err2: "\<bar>p / c - z\<bar> \<le> z / 2 ^ 53" .
  have "z / 2 ^ 53 \<le> z / 4" using z by (simp add: field_simps)
  with err2 z have x2: "1 / 4 < p / c" "p / c \<le> 4" by linarith+
  have x2pos: "0 < p / c" using x2(1) by linarith
  have e2: "- 1022 \<le> expo (p / c)"
  proof -
    have "(1 / 4 :: rat) = 2 powi (- 2)" by (simp add: power_int_minus)
    with x2(1) have "(2::rat) powi (- 2) \<le> p / c" by linarith
    then have "- 2 \<le> expo (p / c)" using x2pos by (rule expo_ge)
    then show ?thesis by simp
  qed
  show "fl (p / c) = Finite q"
    unfolding q_def using x2pos e2 x2(2) by (rule fl_finite)
  have err3: "\<bar>q - p / c\<bar> \<le> (p / c) / 2 ^ 53"
    unfolding q_def using x2pos e2 by (rule round53_rel_err)
  have "p / c \<le> z + z / 2 ^ 53" using err2 by linarith
  then have "(p / c) / 2 ^ 53 \<le> (z + z / 2 ^ 53) / 2 ^ 53"
    by (intro divide_right_mono) auto
  also have "\<dots> = z / 2 ^ 53 + z / 2 ^ 106" by (simp add: field_simps)
  finally have "\<bar>q - p / c\<bar> \<le> z / 2 ^ 53 + z / 2 ^ 106" using err3 by linarith
  with err2 have "\<bar>q - z\<bar> \<le> z / 2 ^ 53 + z / 2 ^ 106 + z / 2 ^ 53" by linarith
  also have "\<dots> = z / 2 ^ 52 + z / 2 ^ 106" by (simp add: field_simps)
  finally show "\<bar>q - z\<bar> \<le> z / 2 ^ 52 + z / 2 ^ 106" .
qed

section \<open>Loading\<close>

text \<open>
  C3. A successful load of a document with \<open>N\<close> pages leaves the session open with
  \<open>N\<close> pages, on page 1, scroll offset 0 and the zoom level it had before; a failed
  load leaves the no-document defaults (nothing open, 0 pages, page 0, zoom 1.0,
  scroll offset 0).
\<close>

theorem load_pdf_success_and_failure:
  "(case load_pdf s p (Inr doc) of (s', ok, msg) \<Rightarrow>
      ok \<and> has_document (get_document_info s') \<and> total_pages s' = int (page_count doc)
      \<and> current_page_num s' = 1 \<and> scroll_position s' = 0 \<and> zoom_level s' = zoom_level s)
   \<and> (case load_pdf s p (Inl e) of (s', ok, msg) \<Rightarrow>
      \<not> ok \<and> \<not> has_document (get_document_info s') \<and> total_pages s' = 0
      \<and> current_page_num s' = 0 \<and> zoom_level s' = Finite 1 \<and> scroll_position s' = 0
      \<and> s' = init_core\<lparr>scroll_threshold := scroll_threshold s\<rparr>)"
  by (simp add: load_pdf_def get_document_info_def reset_pdf_state_def init_core_def)

theorem load_pdf_success_and_failure_witness:
  "fst (load_pdf (fst (zoom_in init_core lit_0_1)) ''/tmp/a.pdf'' (Inr (Document 3)))
     = \<lparr>pdf_document = Some (Document 3), current_pdf_path = Some ''/tmp/a.pdf'',
        current_page_num = 1, total_pages = 3,
        zoom_level = zoom_level (fst (zoom_in init_core lit_0_1)), scroll_position = 0,
        page_height = 0, scroll_threshold = 100\<rparr>
   \<and> fst (load_pdf three_pages ''/tmp/b.pdf'' (Inl ''no such file'')) = init_core"
  using load_pdf_success_and_failure
    [where s = "fst (zoom_in init_core lit_0_1)" and p = "''/tmp/a.pdf''"
       and doc = "Document 3" and e = "''no such file''"]
    load_pdf_success_and_failure
    [where s = three_pages and p = "''/tmp/b.pdf''" and doc = "Document 3"
       and e = "''no such file''"]
  by (simp add: load_pdf_def zoom_in_def init_core_def three_pages_def reset_pdf_state_def)

section \<open>Page navigation\<close>

text \<open>
  C4. With a document open and \<open>1 \<le> n \<le> total_pages\<close>, \<open>go_to_page n\<close> succeeds and
  sets the current page to \<open>n\<close> and the scroll position to 0, leaving every other
  field as it was. The open document is the one \<open>load_pdf\<close> stored, so \<open>total_pages\<close>
  is its length.
\<close>

theorem go_to_page_in_range:
  assumes "pdf_document s = Some doc" and "total_pages s = int (page_count doc)"
    and "1 \<le> n" and "n \<le> total_pages s"
  shows "go_to_page s n = (s\<lparr>current_page_num := n, scroll_position := 0\<rparr>, True, None)"
  using assms by (auto simp: go_to_page_def truthy_def)

theorem go_to_page_in_range_witness:
  "go_to_page three_pages 2 =
     (\<lparr>pdf_document = Some (Document 3), current_pdf_path = Some ''/tmp/a.pdf'',
       current_page_num = 2, total_pages = 3, zoom_level = Finite 1, scroll_position = 0,
       page_height = 0, scroll_threshold = 100\<rparr>, True, None)"
  using go_to_page_in_range [of three_pages "Document 3" 2]
  by (simp add: three_pages_def load_pdf_def init_core_def)

text \<open>
  C5. For every \<open>n\<close> outside \<open>[1, total_pages]\<close>, and whenever no document is open,
  \<open>go_to_page n\<close> fails and returns the session exactly as it was.
\<close>

theorem go_to_page_out_of_range:
  assumes "n < 1 \<or> total_pages s < n \<or> pdf_document s = None"
  shows "fst (go_to_page s n) = s \<and> \<not> fst (snd (go_to_page s n))"
  using assms by (auto simp: go_to_page_def truthy_def)

theorem go_to_page_out_of_range_witness:
  "go_to_page three_pages 4 =
     (three_pages, False, Some ''Page number must be between 1 and 3.'')
   \<and> go_to_page init_core 1 = (init_core, False, Some ''No PDF document loaded.'')"
  using go_to_page_out_of_range [of 4 three_pages] go_to_page_out_of_range [of 1 init_core]
  by (simp add: go_to_page_def three_pages_def load_pdf_def init_core_def truthy_def
      str_int_def)

lemma next_page_step:
  assumes "truthy (pdf_document s)" and "1 \<le> current_page_num s"
    and "current_page_num s < total_pages s"
  shows "next_page s =
    (s\<lparr>current_page_num := current_page_num s + 1, scroll_position := 0\<rparr>, True, None)"
  using assms by (simp add: next_page_def go_to_page_def)

lemma next_page_times_advance:
  assumes "truthy (pdf_document s)" and "1 \<le> current_page_num s"
    and "current_page_num s + int k \<le> total_pages s"
  shows "next_page_times k s =
    (if k = 0 then s
     else s\<lparr>current_page_num := current_page_num s + int k, scroll_position := 0\<rparr>,
     replicate k True)"
  using assms
proof (induction k arbitrary: s)
  case 0
  then show ?case by simp
next
  case (Suc k)
  let ?s' = "s\<lparr>current_page_num := current_page_num s + 1, scroll_position := 0\<rparr>"
  have step: "next_page s = (?s', True, None)"
    using Suc.prems by (intro next_page_step) auto
  have "next_page_times k ?s' =
    (if k = 0 then ?s'
     else ?s'\<lparr>current_page_num := current_page_num ?s' + int k, scroll_position := 0\<rparr>,
     replicate k True)"
    using Suc.prems by (intro Suc.IH) auto
  then show ?case using step by (auto simp: add.assoc)
qed

text \<open>
  C6. With a document of \<open>N \<ge> 1\<close> pages open on page 1, \<open>N - 1\<close> calls of \<open>next_page\<close>
  all succeed and end on page \<open>N\<close>; one more call fails with the message
  "You are already on the last page." and leaves the state as it is.
\<close>

theorem next_page_reaches_last_page:
  assumes "pdf_document s = Some doc" and "total_pages s = int (page_count doc)"
    and "1 \<le> page_count doc" and "current_page_num s = 1"
  shows "case next_page_times (page_count doc - 1) s of (s', oks) \<Rightarrow>
    oks = replicate (page_count doc - 1) True
    \<and> current_page_num s' = total_pages s \<and> total_pages s' = total_pages s
    \<and> pdf_document s' = pdf_document s \<and> zoom_level s' = zoom_level s
    \<and> next_page s' = (s', False, Some ''You are already on the last page.'')"
proof -
  have t: "truthy (pdf_document s)"
    using assms by (simp add: truthy_def)
  have "current_page_num s + int (page_count doc - 1) \<le> total_pages s"
    using assms by simp
  from next_page_times_advance [OF t _ this] assms t
  show ?thesis by (auto simp: next_page_def of_nat_diff)
qed

theorem next_page_reaches_last_page_witness:
  "next_page_times 2 three_pages =
     (three_pages\<lparr>current_page_num := 3\<rparr>, [True, True])
   \<and> next_page (three_pages\<lparr>current_page_num := 3\<rparr>) =
     (three_pages\<lparr>current_page_num := 3\<rparr>, False, Some ''You are already on the last page.'')"
  using next_page_reaches_last_page [of three_pages "Document 3"]
  by (simp add: three_pages_def load_pdf_def init_core_def numeral_2_eq_2 next_page_def
      go_to_page_def truthy_def)

section \<open>Rendering a page\<close>

text \<open>
  C10. \<open>get_page_pixmap\<close> returns no pixmap, without raising, whenever no document is
  loaded or the requested page (the current one when none is given) lies outside
  \<open>[1, total_pages]\<close>. Whenever it returns, the current page, the page count, the zoom
  level, the scroll position and the document are as before; when the renderer raises,
  nothing has been assigned.
\<close>

theorem get_page_pixmap_absent:
  "(pdf_document s = None
      \<or> (case arg of None \<Rightarrow> current_page_num s | Some n \<Rightarrow> n) < 1
      \<or> total_pages s < (case arg of None \<Rightarrow> current_page_num s | Some n \<Rightarrow> n)
     \<longrightarrow> get_page_pixmap render s arg = Inr (s, None))
   \<and> (\<forall>s' r. get_page_pixmap render s arg = Inr (s', r) \<longrightarrow>
        current_page_num s' = current_page_num s \<and> total_pages s' = total_pages s
        \<and> zoom_level s' = zoom_level s \<and> scroll_position s' = scroll_position s
        \<and> pdf_document s' = pdf_document s)"
proof (rule conjI)
  show "pdf_document s = None
      \<or> (case arg of None \<Rightarrow> current_page_num s | Some n \<Rightarrow> n) < 1
      \<or> total_pages s < (case arg of None \<Rightarrow> current_page_num s | Some n \<Rightarrow> n)
     \<longrightarrow> get_page_pixmap render s arg = Inr (s, None)"
    by (auto simp: get_page_pixmap_def truthy_def Let_def)
next
  define n where "n = (case arg of None \<Rightarrow> current_page_num s | Some n \<Rightarrow> n)"
  show "\<forall>s' r. get_page_pixmap render s arg = Inr (s', r) \<longrightarrow>
        current_page_num s' = current_page_num s \<and> total_pages s' = total_pages s
        \<and> zoom_level s' = zoom_level s \<and> scroll_position s' = scroll_position s
        \<and> pdf_document s' = pdf_document s"
    unfolding get_page_pixmap_def Let_def n_def [symmetric]
    by (auto split: if_splits sum.splits)
qed

theorem get_page_pixmap_absent_witness:
  "get_page_pixmap sample_render init_core None = Inr (init_core, None)
   \<and> get_page_pixmap sample_render three_pages (Some 4) = Inr (three_pages, None)
   \<and> get_page_pixmap sample_render three_pages (Some 0) = Inr (three_pages, None)
   \<and> get_page_pixmap sample_render three_pages (Some 2) =
       Inr (three_pages\<lparr>page_height := 800\<rparr>, Some \<lparr>pix_height = 800\<rparr>)"
proof -
  have t: "total_pages three_pages = 3"
    by (simp add: three_pages_def load_pdf_def)
  have "get_page_pixmap sample_render init_core None = Inr (init_core, None)"
    using get_page_pixmap_absent [of init_core None sample_render, THEN conjunct1]
    by (simp add: init_core_def)
  moreover have "get_page_pixmap sample_render three_pages (Some 4) = Inr (three_pages, None)"
    using get_page_pixmap_absent [of three_pages "Some 4" sample_render, THEN conjunct1] t
    by simp
  moreover have "get_page_pixmap sample_render three_pages (Some 0) = Inr (three_pages, None)"
    using get_page_pixmap_absent [of three_pages "Some 0" sample_render, THEN conjunct1]
    by simp
  moreover have "get_page_pixmap sample_render three_pages (Some 2) =
       Inr (three_pages\<lparr>page_height := 800\<rparr>, Some \<lparr>pix_height = 800\<rparr>)"
    by (simp add: get_page_pixmap_def three_pages_def load_pdf_def truthy_def
        sample_render_def)
  ultimately show ?thesis by blast
qed

section \<open>Pinch gestures\<close>

lemma distance_112:
  "current_distance sample_pow (Finite 0, Finite 0) (Finite 112, Finite 0) = Inr (Finite 112)"
  by (simp add: current_distance_def sample_pow_def fsub_def fl_eval)


lemma distance_113:
  "current_distance sample_pow (Finite 0, Finite 0) (Finite 113, Finite 0) = Inr (Finite 113)"
  by (simp add: current_distance_def sample_pow_def fsub_def fl_eval)


text \<open>
  A touch-end event that carries one touch point, received while a pinch is tracked,
  is handed to the base class: \<open>initial_distance\<close> stays set. So C7 does not hold for
  every touch-end event, nor for every event with fewer than two points.
\<close>

theorem touch_end_without_two_points_keeps_tracking:
  "handle_touch_event sample_pow tracking_100
     \<lparr>ev_type = TouchEnd, touch_points = [(Finite 0, Finite 0)]\<rparr>
     = Inr (tracking_100, [], Default)
   \<and> initial_distance tracking_100 = Some (Finite 100)"
  by (simp add: handle_touch_event_def tracking_100_def)


text \<open>
  C7, amended. While a pinch is tracked, a touch-end event that carries exactly two
  touch points clears \<open>initial_distance\<close> and resets \<open>last_pinch_scale\<close> to 1.0,
  provided the handler does not raise: the distance of the two points is computed and
  the initial distance is not zero.
\<close>

theorem touch_end_two_points_clears:
  assumes "initial_distance w = Some d0" and "d0 \<noteq> Finite 0"
    and "length (touch_points ev) = 2" and "ev_type ev = TouchEnd"
    and "current_distance pw (touch_points ev ! 0) (touch_points ev ! 1) = Inr cur"
  shows "\<exists>calls. handle_touch_event pw w ev =
    Inr (w\<lparr>initial_distance := None, last_pinch_scale := Finite 1\<rparr>, calls, Accepted)"
proof -
  obtain q where q: "fdiv cur d0 = Inr q"
    using fdiv_nonzero [OF assms(2)] by blast
  show ?thesis
    using assms(1,3,4,5) q
    by (simp add: handle_touch_event_def Let_def end_of_touch_def)
qed


theorem touch_end_two_points_clears_witness:
  "handle_touch_event sample_pow tracking_100 (two_points 112 TouchEnd) =
     Inr (init_widget, [Call_zoom_in_by_factor lit_1_1], Accepted)"
proof -
  have "handle_touch_event sample_pow tracking_100 (two_points 112 TouchEnd) =
     Inr (tracking_100\<lparr>initial_distance := None, last_pinch_scale := Finite 1\<rparr>,
          [Call_zoom_in_by_factor lit_1_1], Accepted)"
    by (simp add: handle_touch_event_def two_points_def tracking_100_def distance_112
        end_of_touch_def fsub_def fgt_def lit_0_05_def fl_eval)
  with touch_end_two_points_clears [of tracking_100 "Finite 100" "two_points 112 TouchEnd"
      sample_pow "Finite 112"]
  show ?thesis
    by (simp add: tracking_100_def init_widget_def two_points_def distance_112)
qed

text \<open>
  C8. While a pinch is tracked, a two-point event other than a touch-end computes
  \<open>scale_factor = current_distance / initial_distance\<close> and
  \<open>delta = scale_factor - last_pinch_scale\<close>. If \<open>\<bar>delta\<bar> \<le> 0.05\<close> no call is made and
  \<open>last_pinch_scale\<close> stays; if \<open>delta > 0.05\<close> exactly one \<open>zoom_in_by_factor(1.1)\<close> is
  called; if \<open>delta < - 0.05\<close> exactly one \<open>zoom_out_by_factor(1.1)\<close> is called; in both
  of these cases \<open>last_pinch_scale\<close> becomes \<open>scale_factor\<close>. The numbers are floats and
  0.05, 1.1 are the float literals.
\<close>

theorem pinch_update_commands:
  assumes "initial_distance w = Some d0" and "length (touch_points ev) = 2"
    and "ev_type ev \<noteq> TouchEnd"
    and "current_distance pw (touch_points ev ! 0) (touch_points ev ! 1) = Inr cur"
    and "fdiv cur d0 = Inr scale_factor"
    and "delta = fsub scale_factor (last_pinch_scale w)"
  shows "(fle (fabs delta) lit_0_05 \<longrightarrow>
            handle_touch_event pw w ev = Inr (w, [], Accepted))
    \<and> (fgt delta lit_0_05 \<longrightarrow>
            handle_touch_event pw w ev =
              Inr (w\<lparr>last_pinch_scale := scale_factor\<rparr>,
                   [Call_zoom_in_by_factor lit_1_1], Accepted))
    \<and> (flt delta (fneg lit_0_05) \<longrightarrow>
            handle_touch_event pw w ev =
              Inr (w\<lparr>last_pinch_scale := scale_factor\<rparr>,
                   [Call_zoom_out_by_factor lit_1_1], Accepted))"
proof -
  have h: "handle_touch_event pw w ev =
    (if fgt (fabs delta) lit_0_05 then
       if fgt delta (Finite 0) then
         Inr (w\<lparr>last_pinch_scale := scale_factor\<rparr>, [Call_zoom_in_by_factor lit_1_1], Accepted)
       else
         Inr (w\<lparr>last_pinch_scale := scale_factor\<rparr>, [Call_zoom_out_by_factor lit_1_1], Accepted)
     else Inr (w, [], Accepted))"
    using assms by (simp add: handle_touch_event_def Let_def end_of_touch_def)
  show ?thesis
    unfolding h by (cases delta) (auto simp: lit_0_05_def fgt_def)
qed


theorem pinch_update_commands_witness:
  "handle_touch_event sample_pow tracking_100 (two_points 112 TouchUpdate) =
     Inr (tracking_100\<lparr>last_pinch_scale := Finite (1261007895663739 / 1125899906842624)\<rparr>,
          [Call_zoom_in_by_factor lit_1_1], Accepted)
   \<and> handle_touch_event sample_pow
       (tracking_100\<lparr>last_pinch_scale := Finite (1261007895663739 / 1125899906842624)\<rparr>)
       (two_points 113 TouchUpdate) =
     Inr (tracking_100\<lparr>last_pinch_scale := Finite (1261007895663739 / 1125899906842624)\<rparr>,
          [], Accepted)"
proof -
  let ?s112 = "Finite (1261007895663739 / 1125899906842624)"
  let ?s113 = "Finite (1272266894732165 / 1125899906842624)"
  have q1: "fdiv (Finite 112) (Finite 100) = Inr ?s112"
    by (simp add: fl_eval)
  have q2: "fdiv (Finite 113) (Finite 100) = Inr ?s113"
    by (simp add: fl_eval)
  have d1: "fgt (fsub ?s112 (Finite 1)) lit_0_05"
    by (simp add: fsub_def fgt_def lit_0_05_def fl_eval)
  have d2: "fle (fabs (fsub ?s113 ?s112)) lit_0_05"
    by (simp add: fsub_def lit_0_05_def fl_eval)
  from pinch_update_commands [of tracking_100 "Finite 100" "two_points 112 TouchUpdate"
      sample_pow "Finite 112" ?s112 "fsub ?s112 (Finite 1)"] q1 d1
  have 1: "handle_touch_event sample_pow tracking_100 (two_points 112 TouchUpdate) =
     Inr (tracking_100\<lparr>last_pinch_scale := ?s112\<rparr>, [Call_zoom_in_by_factor lit_1_1], Accepted)"
    by (simp add: tracking_100_def two_points_def distance_112)
  from pinch_update_commands [of "tracking_100\<lparr>last_pinch_scale := ?s112\<rparr>" "Finite 100"
      "two_points 113 TouchUpdate" sample_pow "Finite 113" ?s113 "fsub ?s113 ?s112"] q2 d2
  have 2: "handle_touch_event sample_pow (tracking_100\<lparr>last_pinch_scale := ?s112\<rparr>)
       (two_points 113 TouchUpdate) =
     Inr (tracking_100\<lparr>last_pinch_scale := ?s112\<rparr>, [], Accepted)"
    by (simp add: tracking_100_def two_points_def distance_113)
  from 1 2 show ?thesis by simp
qed

section \<open>The session invariant\<close>

lemma step_session_inv:
  assumes "session_inv s" and "enlarging opn"
  shows "session_inv (step s opn)"
proof (cases opn)
  case (Op_load path opened)
  with assms show ?thesis
    by (cases opened)
      (auto simp: session_inv_def get_document_info_def load_pdf_def reset_pdf_state_def
        zoom_in_bounds_def)
next
  case (Op_go_to_page n)
  with assms show ?thesis
    by (auto simp: session_inv_def get_document_info_def go_to_page_def)
next
  case Op_next_page
  with assms show ?thesis
    by (auto simp: session_inv_def get_document_info_def next_page_def go_to_page_def)
next
  case Op_prev_page
  with assms show ?thesis
    by (auto simp: session_inv_def get_document_info_def prev_page_def go_to_page_def)
next
  case (Op_zoom_in f)
  with assms zoom_in_keeps [of "zoom_level s" f] show ?thesis
    by (simp add: session_inv_def get_document_info_def zoom_in_def)
next
  case (Op_zoom_out f)
  with assms zoom_out_keeps [of "zoom_level s" f] show ?thesis
    by (simp add: session_inv_def get_document_info_def zoom_out_def)
next
  case (Op_zoom_in_by_factor f)
  with assms zoom_in_by_factor_keeps [of "zoom_level s" f] show ?thesis
    by (simp add: session_inv_def get_document_info_def zoom_in_by_factor_def)
next
  case (Op_zoom_out_by_factor f)
  with assms zoom_out_by_factor_keeps [of "zoom_level s" f] show ?thesis
    by (auto simp: session_inv_def get_document_info_def zoom_out_by_factor_def)
next
  case Op_reset
  with assms show ?thesis
    by (simp add: session_inv_def get_document_info_def reset_pdf_state_def
        zoom_in_bounds_def)
qed

lemma run_session_inv:
  assumes "session_inv s" and "list_all enlarging ops"
  shows "session_inv (run ops s)"
  using assms unfolding run_def
  by (induction ops arbitrary: s) (simp_all add: step_session_inv)

lemma session_inv_init: "session_inv init_core"
  by (simp add: session_inv_def get_document_info_def init_core_def zoom_in_bounds_def)

text \<open>
  The invariant of C1 does not hold in every reachable state. \<open>zoom_in_by_factor\<close>
  bounds the zoom level from above only, so a factor of 0.25, which is positive, takes
  the zoom level from 1.0 to 0.25; and \<open>load_pdf\<close> sets the current page to 1 whatever
  the length of the document, so a document without pages leaves page 1 of 0.
\<close>

theorem session_inv_broken:
  "list_all within_contract [Op_zoom_in_by_factor (Finite (1 / 4))]
   \<and> \<not> session_inv (run [Op_zoom_in_by_factor (Finite (1 / 4))] init_core)
   \<and> list_all within_contract [Op_load ''/tmp/empty.pdf'' (Inr (Document 0))]
   \<and> \<not> session_inv (run [Op_load ''/tmp/empty.pdf'' (Inr (Document 0))] init_core)"
proof -
  have "fl (1 / 4) = Finite (1 / 4)" by (simp add: fl_eval)
  then show ?thesis
    by (simp add: run_def zoom_in_by_factor_def init_core_def py_min_def session_inv_def
        zoom_in_bounds_def get_document_info_def load_pdf_def fgt_def)
qed

text \<open>
  C1, amended. In every state reached from the initial one by operations whose zoom
  steps are not negative, whose zoom factors are at least 1 and whose loaded documents
  have at least one page: whenever a document is open, \<open>1 \<le> current_page_num \<le>
  total_pages\<close>, and \<open>0.5 \<le> zoom_level \<le> 3.0\<close>.
\<close>

theorem session_inv_reachable:
  assumes "list_all enlarging ops"
  shows "session_inv (run ops init_core)"
  using session_inv_init assms by (rule run_session_inv)

theorem session_inv_reachable_witness:
  "run [Op_load ''/tmp/a.pdf'' (Inr (Document 3)), Op_zoom_in lit_0_1, Op_next_page,
        Op_zoom_in_by_factor lit_1_1, Op_zoom_out_by_factor lit_1_1] init_core
     = three_pages\<lparr>current_page_num := 2, zoom_level := lit_1_1\<rparr>
   \<and> session_inv (three_pages\<lparr>current_page_num := 2, zoom_level := lit_1_1\<rparr>)"
proof -
  let ?ops = "[Op_load ''/tmp/a.pdf'' (Inr (Document 3)), Op_zoom_in lit_0_1, Op_next_page,
        Op_zoom_in_by_factor lit_1_1, Op_zoom_out_by_factor lit_1_1]"
  have r: "run ?ops init_core = three_pages\<lparr>current_page_num := 2, zoom_level := lit_1_1\<rparr>"
    by (simp add: run_def three_pages_def load_pdf_def init_core_def zoom_in_def
        lit_0_1_def lit_1_1_def py_min_def py_max_def fgt_def next_page_def
        go_to_page_def truthy_def zoom_in_by_factor_def zoom_out_by_factor_def fl_eval)
  have e: "list_all enlarging ?ops"
    by (simp add: lit_0_1_def lit_1_1_def)
  from session_inv_reachable [OF e] r show ?thesis by simp
qed

section \<open>Zooming by a factor\<close>

lemma fmul_factor:
  assumes "z = Finite r" and "1 / 2 \<le> r" and "fle (Finite 1) f"
  shows "fmul z f = PosInf \<or> (\<exists>t. fmul z f = Finite t \<and> 1 / 2 \<le> t)"
proof -
  from fle_zero_cases [OF assms(3)] show ?thesis
  proof
    assume "\<exists>q. f = Finite q \<and> 1 \<le> q"
    then obtain q where q: "f = Finite q" "1 \<le> q" by blast
    have "1 / 2 * 1 \<le> r * q" using assms q by (intro mult_mono) auto
    then have "1 / 2 \<le> r * q" by simp
    from fl_ge_half [OF this] show ?thesis by (simp add: assms(1) q)
  next
    assume "f = PosInf"
    then show ?thesis using assms by (simp add: inf_of_sign_def)
  qed
qed

text \<open>
  With the zoom level at 1.0 and the positive factor 0.25, \<open>zoom_in_by_factor\<close> leaves
  0.25 where C2 says \<open>clamp(0.25, 0.5, 3.0) = 0.5\<close>, and \<open>zoom_out_by_factor\<close> leaves
  4.0 where C2 says \<open>clamp(4.0, 0.5, 3.0) = 3.0\<close>.
\<close>

theorem zoom_by_factor_one_sided:
  "fgt (Finite (1 / 4)) (Finite 0) \<and> zoom_in_bounds (zoom_level init_core)
   \<and> zoom_in_by_factor init_core (Finite (1 / 4)) =
       (init_core\<lparr>zoom_level := Finite (1 / 4)\<rparr>, True)
   \<and> clamp (fmul (zoom_level init_core) (Finite (1 / 4))) (Finite (1 / 2)) (Finite 3) =
       Finite (1 / 2)
   \<and> fdiv (zoom_level init_core) (Finite (1 / 4)) = Inr (Finite 4)
   \<and> zoom_out_by_factor init_core (Finite (1 / 4)) =
       Inr (init_core\<lparr>zoom_level := Finite 4\<rparr>, True)
   \<and> clamp (Finite 4) (Finite (1 / 2)) (Finite 3) = Finite 3"
  by (simp add: zoom_in_by_factor_def zoom_out_by_factor_def init_core_def py_min_def
      py_max_def fgt_def clamp_def zoom_in_bounds_def fl_eval)

text \<open>
  C2, amended. For every starting zoom level in \<open>[0.5, 3.0]\<close> and every factor of at
  least 1, \<open>zoom_in_by_factor\<close> sets the zoom level to \<open>clamp(zoom * factor, 0.5, 3.0)\<close>
  and \<open>zoom_out_by_factor\<close> sets it to \<open>clamp(zoom / factor, 0.5, 3.0)\<close>; for every
  positive factor both return \<open>True\<close> and neither raises.
\<close>

theorem zoom_by_factor_clamps:
  assumes "zoom_in_bounds (zoom_level s)"
  shows "(fle (Finite 1) f \<longrightarrow>
            zoom_in_by_factor s f =
              (s\<lparr>zoom_level := clamp (fmul (zoom_level s) f) (Finite (1 / 2)) (Finite 3)\<rparr>,
               True)
            \<and> (\<exists>q. fdiv (zoom_level s) f = Inr q
                 \<and> zoom_out_by_factor s f =
                     Inr (s\<lparr>zoom_level := clamp q (Finite (1 / 2)) (Finite 3)\<rparr>, True)))
    \<and> (fgt f (Finite 0) \<longrightarrow>
            snd (zoom_in_by_factor s f) \<and> (\<exists>s'. zoom_out_by_factor s f = Inr (s', True)))"
proof (intro conjI impI)
  obtain r where r: "zoom_level s = Finite r" "1 / 2 \<le> r" "r \<le> 3"
    using assms by (auto simp: zoom_in_bounds_iff)
  {
    assume f: "fle (Finite 1) f"
    from fmul_factor [OF r(1,2) f]
    have "py_min (fmul (zoom_level s) f) (Finite 3) =
        clamp (fmul (zoom_level s) f) (Finite (1 / 2)) (Finite 3)"
      by (auto simp: py_min_def clamp_def)
    then show "zoom_in_by_factor s f =
        (s\<lparr>zoom_level := clamp (fmul (zoom_level s) f) (Finite (1 / 2)) (Finite 3)\<rparr>, True)"
      by (simp add: zoom_in_by_factor_def)
    from fdiv_factor [OF r f] obtain q where
      q: "fdiv (zoom_level s) f = Inr q" "q = NegInf \<or> (\<exists>t. q = Finite t \<and> t \<le> 3)"
      by blast
    from q(2) have "py_max q (Finite (1 / 2)) = clamp q (Finite (1 / 2)) (Finite 3)"
      by (auto simp: py_max_def fgt_def clamp_def)
    with q(1) show "\<exists>q. fdiv (zoom_level s) f = Inr q
        \<and> zoom_out_by_factor s f =
            Inr (s\<lparr>zoom_level := clamp q (Finite (1 / 2)) (Finite 3)\<rparr>, True)"
      by (simp add: zoom_out_by_factor_def)
  }
  {
    assume f: "fgt f (Finite 0)"
    show "snd (zoom_in_by_factor s f)" by (simp add: zoom_in_by_factor_def)
    from f have "f \<noteq> Finite 0" by (auto simp: fgt_def)
    from fdiv_nonzero [OF this] obtain q where "fdiv (zoom_level s) f = Inr q" by blast
    then show "\<exists>s'. zoom_out_by_factor s f = Inr (s', True)"
      by (simp add: zoom_out_by_factor_def)
  }
qed

theorem zoom_by_factor_clamps_witness:
  "zoom_in_by_factor (init_core\<lparr>zoom_level := Finite 3\<rparr>) lit_1_1 =
     (init_core\<lparr>zoom_level := Finite 3\<rparr>, True)
   \<and> zoom_out_by_factor (init_core\<lparr>zoom_level := Finite 3\<rparr>) lit_1_1 =
     Inr (init_core\<lparr>zoom_level := Finite (6141272219141585 / 2251799813685248)\<rparr>, True)
   \<and> clamp (Finite (6141272219141585 / 2251799813685248)) (Finite (1 / 2)) (Finite 3) =
     Finite (6141272219141585 / 2251799813685248)"
proof -
  let ?s = "init_core\<lparr>zoom_level := Finite 3\<rparr>"
  have b: "zoom_in_bounds (zoom_level ?s)" by (simp add: zoom_in_bounds_def)
  have m: "fmul (Finite 3) lit_1_1 = Finite (7430939385161319 / 2251799813685248)"
    by (simp add: lit_1_1_def fl_eval)
  have d: "fdiv (Finite 3) lit_1_1 = Inr (Finite (6141272219141585 / 2251799813685248))"
    by (simp add: lit_1_1_def fl_eval)
  have f: "fle (Finite 1) lit_1_1" by (simp add: lit_1_1_def)
  from zoom_by_factor_clamps [OF b, of lit_1_1] f m d
  show ?thesis by (simp add: clamp_def)
qed

section \<open>Zooming in and back out\<close>

text \<open>
  Nine calls of \<open>zoom_in()\<close> from the initial zoom level 1.0 leave the float
  1.9000000000000008. From there \<open>zoom_in_by_factor(1.1)\<close> gives 2.090000000000001 and
  \<open>zoom_out_by_factor(1.1)\<close> gives 1.900000000000001, the next float up: neither step
  is clamped, and the zoom level is not the one the round trip started from. So the
  law of C9 does not hold with equality.
\<close>

theorem zoom_round_trip_not_exact:
  "zoom_level (run [Op_zoom_in lit_0_1, Op_zoom_in lit_0_1, Op_zoom_in lit_0_1,
       Op_zoom_in lit_0_1, Op_zoom_in lit_0_1, Op_zoom_in lit_0_1, Op_zoom_in lit_0_1,
       Op_zoom_in lit_0_1, Op_zoom_in lit_0_1] init_core)
     = Finite (4278419646001973 / 2251799813685248)
   \<and> flt (Finite (1 / 2)) (Finite (4278419646001973 / 2251799813685248))
   \<and> flt (Finite (4278419646001973 / 2251799813685248)) (Finite 3)
   \<and> fmul (Finite (4278419646001973 / 2251799813685248)) lit_1_1
     = Finite (4706261610602171 / 2251799813685248)
   \<and> fle (Finite (4706261610602171 / 2251799813685248)) (Finite 3)
   \<and> zoom_in_by_factor (init_core\<lparr>zoom_level := Finite (4278419646001973 / 2251799813685248)\<rparr>)
       lit_1_1
     = (init_core\<lparr>zoom_level := Finite (4706261610602171 / 2251799813685248)\<rparr>, True)
   \<and> fdiv (Finite (4706261610602171 / 2251799813685248)) lit_1_1
     = Inr (Finite (8556839292003947 / 4503599627370496))
   \<and> fle (Finite (1 / 2)) (Finite (8556839292003947 / 4503599627370496))
   \<and> zoom_out_by_factor (init_core\<lparr>zoom_level := Finite (4706261610602171 / 2251799813685248)\<rparr>)
       lit_1_1
     = Inr (init_core\<lparr>zoom_level := Finite (8556839292003947 / 4503599627370496)\<rparr>, True)
   \<and> Finite (8556839292003947 / 4503599627370496)
     \<noteq> Finite (4278419646001973 / 2251799813685248)"
proof -
  have m: "fmul (Finite (4278419646001973 / 2251799813685248)) lit_1_1
     = Finite (4706261610602171 / 2251799813685248)"
    by (simp add: lit_1_1_def fl_eval)
  have d: "fdiv (Finite (4706261610602171 / 2251799813685248)) lit_1_1
     = Inr (Finite (8556839292003947 / 4503599627370496))"
    by (simp add: lit_1_1_def fl_eval)
  have r: "zoom_level (run [Op_zoom_in lit_0_1, Op_zoom_in lit_0_1, Op_zoom_in lit_0_1,
       Op_zoom_in lit_0_1, Op_zoom_in lit_0_1, Op_zoom_in lit_0_1, Op_zoom_in lit_0_1,
       Op_zoom_in lit_0_1, Op_zoom_in lit_0_1] init_core)
     = Finite (4278419646001973 / 2251799813685248)"
    by (simp add: run_def zoom_in_def init_core_def lit_0_1_def py_min_def fl_eval)
  show ?thesis
    unfolding r
    by (simp add: m d zoom_in_by_factor_def zoom_out_by_factor_def py_min_def py_max_def
        fgt_def init_core_def)
qed

text \<open>
  C9, amended. For every starting zoom level \<open>z\<close> strictly inside \<open>(0.5, 3.0)\<close>, both
  steps compute finite floats; when neither is clamped, \<open>zoom_in_by_factor(1.1)\<close>
  followed by \<open>zoom_out_by_factor(1.1)\<close> leaves a zoom level \<open>q\<close> within two roundings of
  \<open>z\<close>: \<open>\<bar>q - z\<bar> \<le> z / 2 ^ 52 + z / 2 ^ 106\<close>.
\<close>

theorem zoom_round_trip_close:
  assumes "zoom_level s = Finite z" and "1 / 2 < z" and "z < 3"
  shows "\<exists>p q. fmul (zoom_level s) lit_1_1 = Finite p
    \<and> fdiv (Finite p) lit_1_1 = Inr (Finite q)
    \<and> (p \<le> 3 \<and> 1 / 2 \<le> q \<longrightarrow>
         zoom_in_by_factor s lit_1_1 = (s\<lparr>zoom_level := Finite p\<rparr>, True)
         \<and> zoom_out_by_factor (s\<lparr>zoom_level := Finite p\<rparr>) lit_1_1
             = Inr (s\<lparr>zoom_level := Finite q\<rparr>, True)
         \<and> \<bar>q - z\<bar> \<le> z / 2 ^ 52 + z / 2 ^ 106)"
proof -
  define c :: rat where "c = 2476979795053773 / 2251799813685248"
  define p where "p = round53 (z * c)"
  define q where "q = round53 (p / c)"
  have c: "1 \<le> c" "c \<le> 4 / 3" "c \<noteq> 0" by (simp_all add: c_def)
  note rt = round_trip_error [OF assms(2,3) c(1,2), folded p_def q_def]
  have l: "lit_1_1 = Finite c" by (simp add: lit_1_1_def c_def)
  have m: "fmul (zoom_level s) lit_1_1 = Finite p"
    using rt(1) by (simp add: assms(1) l)
  have d: "fdiv (Finite p) lit_1_1 = Inr (Finite q)"
    using rt(2) c(3) by (simp add: l)
  have "zoom_in_by_factor s lit_1_1 = (s\<lparr>zoom_level := Finite p\<rparr>, True)" if "p \<le> 3"
    using that m by (simp add: zoom_in_by_factor_def py_min_def)
  moreover have "zoom_out_by_factor (s\<lparr>zoom_level := Finite p\<rparr>) lit_1_1
      = Inr (s\<lparr>zoom_level := Finite q\<rparr>, True)" if "1 / 2 \<le> q"
    using that d by (simp add: zoom_out_by_factor_def py_max_def fgt_def)
  ultimately show ?thesis using m d rt(3) by blast
qed

theorem zoom_round_trip_close_witness:
  "zoom_out_by_factor
     (fst (zoom_in_by_factor
        (init_core\<lparr>zoom_level := Finite (4278419646001973 / 2251799813685248)\<rparr>) lit_1_1))
     lit_1_1
     = Inr (init_core\<lparr>zoom_level := Finite (8556839292003947 / 4503599627370496)\<rparr>, True)
   \<and> \<bar>8556839292003947 / 4503599627370496 - 4278419646001973 / 2251799813685248 :: rat\<bar>
     \<le> (4278419646001973 / 2251799813685248) / 2 ^ 52
       + (4278419646001973 / 2251799813685248) / 2 ^ 106"
proof -
  let ?z = "4278419646001973 / 2251799813685248 :: rat"
  let ?s = "init_core\<lparr>zoom_level := Finite ?z\<rparr>"
  have m: "fmul (zoom_level ?s) lit_1_1 = Finite (4706261610602171 / 2251799813685248)"
    by (simp add: lit_1_1_def fl_eval)
  have d: "fdiv (Finite (4706261610602171 / 2251799813685248)) lit_1_1
     = Inr (Finite (8556839292003947 / 4503599627370496))"
    by (simp add: lit_1_1_def fl_eval)
  from zoom_round_trip_close [of ?s ?z]
  obtain p q where pq: "fmul (zoom_level ?s) lit_1_1 = Finite p"
    "fdiv (Finite p) lit_1_1 = Inr (Finite q)"
    "p \<le> 3 \<and> 1 / 2 \<le> q \<longrightarrow>
         zoom_in_by_factor ?s lit_1_1 = (?s\<lparr>zoom_level := Finite p\<rparr>, True)
         \<and> zoom_out_by_factor (?s\<lparr>zoom_level := Finite p\<rparr>) lit_1_1
             = Inr (?s\<lparr>zoom_level := Finite q\<rparr>, True)
         \<and> \<bar>q - ?z\<bar> \<le> ?z / 2 ^ 52 + ?z / 2 ^ 106"
    by auto
  from pq(1) m have p: "p = 4706261610602171 / 2251799813685248" by simp
  from pq(2) d have q: "q = 8556839292003947 / 4503599627370496" unfolding p by simp
  from pq(3) show ?thesis unfolding p q by simp
qed

end
